theory Spec2Isabelle
  imports Main "HOL-Library.Word" "HOL-Library.Sublist"
begin

unbundle bit_operations_syntax

section \<open>mazette: release-asset resolution, caching, locking and installation\<close>

text \<open>
  A shallow embedding of \<^verbatim>\<open>src/mazette.py\<close>. Python \<^verbatim>\<open>str\<close> and
  \<^verbatim>\<open>bytes\<close> values are lists of 8-bit characters; every \<^verbatim>\<open>raise\<close> of the
  source is a value of \<open>error\<close>, returned on the left of a sum.
\<close>

type_synonym bytes = "char list"

datatype error =
    MalformedURL string
  | HashMismatch string string string
  | NoMatchingRelease string string
  | UnexpectedResponse string nat
  | AssetNotFound string
  | GlobsNoMatch
  | UnexpectedExtract
  | UnsupportedArchive string
  | NoPlatformEntry string
  | StaleLock
  | CouldNotLoadLock error
  | ErrorExtracting error
  | ConfigError
  | HTTPError nat
  | TransportError
  | OSError
  | KeyError string
  | ValueError
  | TypeError

subsection \<open>SHA-256, as \<^verbatim>\<open>hashlib.sha256(data).hexdigest()\<close> computes it\<close>

text \<open>
  The round constants are the first 32 bits of the fractional parts of the cube roots of
  the first 64 primes, the initial state those of the square roots of the first 8.
\<close>

text \<open>
  The hash the source takes from \<^verbatim>\<open>hashlib\<close>, written out after FIPS 180-4 on
  32-bit words: padding to 512-bit blocks, the message schedule as a sliding window of 16
  words, 64 rounds per block, and the digest printed as 64 lower-case hexadecimal digits.
\<close>

type_synonym w32 = "32 word"

definition rotr :: "nat \<Rightarrow> w32 \<Rightarrow> w32" where
  "rotr n x = (drop_bit n x) OR (push_bit (32 - n) x)"

definition ch :: "w32 \<Rightarrow> w32 \<Rightarrow> w32 \<Rightarrow> w32" where
  "ch x y z = (x AND y) XOR (NOT x AND z)"

definition maj :: "w32 \<Rightarrow> w32 \<Rightarrow> w32 \<Rightarrow> w32" where
  "maj x y z = (x AND y) XOR (x AND z) XOR (y AND z)"

definition bsig0 :: "w32 \<Rightarrow> w32" where
  "bsig0 x = rotr 2 x XOR rotr 13 x XOR rotr 22 x"

definition bsig1 :: "w32 \<Rightarrow> w32" where
  "bsig1 x = rotr 6 x XOR rotr 11 x XOR rotr 25 x"

definition ssig0 :: "w32 \<Rightarrow> w32" where
  "ssig0 x = rotr 7 x XOR rotr 18 x XOR drop_bit 3 x"

definition ssig1 :: "w32 \<Rightarrow> w32" where
  "ssig1 x = rotr 17 x XOR rotr 19 x XOR drop_bit 10 x"

definition sha256_k :: "w32 list" where
  "sha256_k = [
    1116352408, 1899447441, 3049323471, 3921009573, 961987163, 1508970993, 2453635748, 2870763221,
    3624381080, 310598401, 607225278, 1426881987, 1925078388, 2162078206, 2614888103, 3248222580,
    3835390401, 4022224774, 264347078, 604807628, 770255983, 1249150122, 1555081692, 1996064986,
    2554220882, 2821834349, 2952996808, 3210313671, 3336571891, 3584528711, 113926993, 338241895,
    666307205, 773529912, 1294757372, 1396182291, 1695183700, 1986661051, 2177026350, 2456956037,
    2730485921, 2820302411, 3259730800, 3345764771, 3516065817, 3600352804, 4094571909, 275423344,
    430227734, 506948616, 659060556, 883997877, 958139571, 1322822218, 1537002063, 1747873779,
    1955562222, 2024104815, 2227730452, 2361852424, 2428436474, 2756734187, 3204031479, 3329325298]"

type_synonym hstate = "w32 \<times> w32 \<times> w32 \<times> w32 \<times> w32 \<times> w32 \<times> w32 \<times> w32"

definition sha256_init :: hstate where
  "sha256_init = (1779033703, 3144134277, 1013904242, 2773480762,
                  1359893119, 2600822924, 528734635, 1541459225)"

definition round_step :: "w32 \<Rightarrow> w32 \<Rightarrow> hstate \<Rightarrow> hstate" where
  "round_step k w s =
     (case s of (a, b, c, d, e, f, g, h) \<Rightarrow>
        (let t1 = h + bsig1 e + ch e f g + k + w;
             t2 = bsig0 a + maj a b c
         in (t1 + t2, a, b, c, d + t1, e, f, g)))"

definition next_w :: "w32 list \<Rightarrow> w32" where
  "next_w ws = ssig1 (ws ! 14) + ws ! 9 + ssig0 (ws ! 1) + ws ! 0"

fun rounds :: "w32 list \<Rightarrow> w32 list \<Rightarrow> hstate \<Rightarrow> hstate" where
  "rounds [] ws s = s"
| "rounds (k # ks) ws s = rounds ks (tl ws @ [next_w ws]) (round_step k (hd ws) s)"

definition add_state :: "hstate \<Rightarrow> hstate \<Rightarrow> hstate" where
  "add_state s t =
     (case s of (a, b, c, d, e, f, g, h) \<Rightarrow>
        (case t of (a', b', c', d', e', f', g', h') \<Rightarrow>
           (a + a', b + b', c + c', d + d', e + e', f + f', g + g', h + h')))"

definition compress :: "hstate \<Rightarrow> w32 list \<Rightarrow> hstate" where
  "compress s block = add_state s (rounds sha256_k block s)"

fun be_words :: "bytes \<Rightarrow> w32 list" where
  "be_words (a # b # c # d # rest) =
     (push_bit 24 (of_char a) OR push_bit 16 (of_char b) OR push_bit 8 (of_char c) OR of_char d)
       # be_words rest"
| "be_words _ = []"

definition be64 :: "64 word \<Rightarrow> bytes" where
  "be64 n = [char_of (unat (drop_bit 56 n)), char_of (unat (drop_bit 48 n)),
              char_of (unat (drop_bit 40 n)), char_of (unat (drop_bit 32 n)),
              char_of (unat (drop_bit 24 n)), char_of (unat (drop_bit 16 n)),
              char_of (unat (drop_bit 8 n)), char_of (unat n)]"

definition pad :: "bytes \<Rightarrow> bytes" where
  "pad m = m @ [CHR 0x80] @ replicate ((119 - length m mod 64) mod 64) (CHR 0x00)
             @ be64 (word_of_nat (8 * length m))"

fun blocks :: "w32 list \<Rightarrow> hstate \<Rightarrow> hstate" where
  "blocks ws s = (if length ws < 16 then s else blocks (drop 16 ws) (compress s (take 16 ws)))"

declare blocks.simps [simp del]

definition sha256 :: "bytes \<Rightarrow> hstate" where
  "sha256 m = blocks (be_words (pad m)) sha256_init"

definition hex_digit :: "nat \<Rightarrow> char" where
  "hex_digit n = ''0123456789abcdef'' ! (n mod 16)"

definition hex32 :: "w32 \<Rightarrow> string" where
  "hex32 w = [hex_digit (unat (drop_bit 28 w)), hex_digit (unat (drop_bit 24 w)),
               hex_digit (unat (drop_bit 20 w)), hex_digit (unat (drop_bit 16 w)),
               hex_digit (unat (drop_bit 12 w)), hex_digit (unat (drop_bit 8 w)),
               hex_digit (unat (drop_bit 4 w)), hex_digit (unat w)]"

definition hexdigest :: "hstate \<Rightarrow> string" where
  "hexdigest s =
     (case s of (a, b, c, d, e, f, g, h) \<Rightarrow>
        hex32 a @ hex32 b @ hex32 c @ hex32 d @ hex32 e @ hex32 f @ hex32 g @ hex32 h)"

definition sha256_hexdigest :: "bytes \<Rightarrow> string" where
  "sha256_hexdigest m = hexdigest (sha256 m)"

subsection \<open>Glob filtering of archive members: \<^verbatim>\<open>filter_files\<close>\<close>

text \<open>
  \<^verbatim>\<open>filter_files(files, globs)\<close> is a generator. It first turns \<^verbatim>\<open>files\<close> into a
  Python set. The order in which a set is iterated is not the order of the input: it
  depends on the hashes of the names, so it is the parameter \<open>iter\<close>, which lists the
  elements of a set in the order a loop over it meets them. For each glob, in order,
  \<^verbatim>\<open>fnmatch.filter(files, glob)\<close> iterates the set as it is then and builds the list
  of the names that match; the inner loop sets \<^verbatim>\<open>matched\<close>, removes the name from
  the set (\<^verbatim>\<open>set.remove\<close> raises \<^verbatim>\<open>KeyError\<close> for a name that is not there) and
  yields it. After the last glob the generator raises when \<^verbatim>\<open>matched\<close> is still
  false. The library matcher \<^verbatim>\<open>fnmatch\<close> is the parameter \<open>fnm name glob\<close>. The
  model returns the yielded names in order, with the error raised at the end, if any.
\<close>

fun yield_matches ::
  "string list \<Rightarrow> string set \<Rightarrow> bool \<Rightarrow> string list \<times> string set \<times> bool \<times> error option" where
  "yield_matches [] files matched = ([], files, matched, None)"
| "yield_matches (m # ms) files matched =
     (if m \<notin> files then ([], files, True, Some (KeyError m))
      else (case yield_matches ms (files - {m}) True of
              (ys, files', matched', err) \<Rightarrow> (m # ys, files', matched', err)))"

fun filter_globs ::
  "(string \<Rightarrow> string \<Rightarrow> bool) \<Rightarrow> (string set \<Rightarrow> string list) \<Rightarrow> string set \<Rightarrow> string list \<Rightarrow> bool
     \<Rightarrow> string list \<times> bool \<times> error option" where
  "filter_globs fnm iter files [] matched = ([], matched, None)"
| "filter_globs fnm iter files (glob # globs) matched =
     (case yield_matches (filter (\<lambda>n. fnm n glob) (iter files)) files matched of
        (ys, files', matched', Some e) \<Rightarrow> (ys, matched', Some e)
      | (ys, files', matched', None) \<Rightarrow>
          (case filter_globs fnm iter files' globs matched' of
             (zs, matched'', err) \<Rightarrow> (ys @ zs, matched'', err)))"

definition filter_files ::
  "(string \<Rightarrow> string \<Rightarrow> bool) \<Rightarrow> (string set \<Rightarrow> string list) \<Rightarrow> string list \<Rightarrow> string list
     \<Rightarrow> string list \<times> error option" where
  "filter_files fnm iter files globs =
     (case filter_globs fnm iter (set files) globs False of
        (ys, matched, Some e) \<Rightarrow> (ys, Some e)
      | (ys, matched, None) \<Rightarrow> (ys, if \<not> matched then Some GlobsNoMatch else None))"

text \<open>
  The selection as the specification words it: each glob, in order, takes every remaining
  member that matches it, and the members it took are no longer candidates for later globs.
\<close>

fun select_members_spec ::
  "(string \<Rightarrow> string \<Rightarrow> bool) \<Rightarrow> (string set \<Rightarrow> string list) \<Rightarrow> string set \<Rightarrow> string list
     \<Rightarrow> string list" where
  "select_members_spec fnm iter remaining [] = []"
| "select_members_spec fnm iter remaining (glob # globs) =
     filter (\<lambda>n. fnm n glob) (iter remaining)
       @ select_members_spec fnm iter {n \<in> remaining. \<not> fnm n glob} globs"

subsection \<open>The state the program acts on\<close>

text \<open>
  The cache directory \<^verbatim>\<open>CACHE_ROOT\<close> holds regular files only; it is a map from file
  name to content, and a cache path is the file's name under \<^verbatim>\<open>CACHE_ROOT\<close>.
  The working tree, where assets are installed, maps a path to a file (content and
  permission bits) or a directory. The two configuration files are absent, unparsable or
  parsed (\<^verbatim>\<open>toml\<close> is an outside collaborator), and the lock file holds a JSON
  value. Every HTTP request and every run of \<^verbatim>\<open>calc_checksum\<close> is recorded in
  \<open>events\<close>, so that "no network request" and "no re-hash" can be stated.
\<close>

datatype json =
    JNull
  | JBool bool
  | JInt int
  | JStr string
  | JList "json list"
  | JDict "(string \<times> json) list"

datatype node = File bytes nat | Dir

datatype toml_file = Absent | Unparsable | Parsed json

datatype event = HttpGet string | CalcChecksum string

record world =
  cache :: "string \<rightharpoonup> bytes"
  tree :: "string \<rightharpoonup> node"
  mazette_toml :: toml_file
  pyproject_toml :: toml_file
  lock_file :: "json option"
  events :: "event list"

definition empty_world :: world where
  "empty_world = \<lparr>cache = Map.empty, tree = Map.empty, mazette_toml = Absent,
     pyproject_toml = Absent, lock_file = None, events = []\<rparr>"

text \<open>
  What \<^verbatim>\<open>requests.get(url, stream=True)\<close> meets: no connection at all, or a response
  with a status code and a body. \<open>Response status body broken\<close> with \<open>broken = Some n\<close> is
  a response whose stream breaks with a transport error after \<open>n\<close> bytes of \<open>body\<close>
  were delivered; with \<open>broken = None\<close> the whole body arrives.
\<close>

datatype response = ConnectionFailed | Response nat bytes "nat option"

subsection \<open>The content cache\<close>

text \<open>\<^verbatim>\<open>str.split(sep)\<close> for a one-character separator.\<close>

fun split_on :: "char \<Rightarrow> string \<Rightarrow> string list" where
  "split_on c [] = [[]]"
| "split_on c (x # xs) =
     (if x = c then [] # split_on c xs
      else (case split_on c xs of
              [] \<Rightarrow> [[x]]
            | p # ps \<Rightarrow> (x # p) # ps))"

text \<open>
  \<^verbatim>\<open>calc_checksum(stream)\<close> reads the stream in pieces of \<^verbatim>\<open>1024**3\<close> bytes until
  a read returns nothing and feeds each piece to the hash object; the hash of the pieces
  fed in order is the hash of their concatenation.
\<close>

function read_chunks :: "nat \<Rightarrow> bytes \<Rightarrow> bytes list" where
  "read_chunks n s = (if n = 0 \<or> s = [] then [] else take n s # read_chunks n (drop n s))"
  by pat_completeness auto
termination
  by (relation "measure (\<lambda>(n, s). length s)") auto

declare read_chunks.simps [simp del]

definition calc_checksum :: "bytes \<Rightarrow> string" where
  "calc_checksum stream = sha256_hexdigest (concat (read_chunks (1024 ^ 3) stream))"

text \<open>
  \<^verbatim>\<open>cache_file_path(url)\<close>: the SHA-256 of the URL, a dash, and the last segment of
  the URL, or \<^verbatim>\<open>{repo}-{zipball|tarball}\<close> when the segment before the last is
  \<^verbatim>\<open>zipball\<close> or \<^verbatim>\<open>tarball\<close>. Fewer than three segments is an error.
\<close>

definition cache_file_path :: "string \<Rightarrow> error + string" where
  "cache_file_path url =
     (let url_hash = sha256_hexdigest url;
          parsed = split_on CHR ''/'' url
      in if length parsed < 3 then Inl (MalformedURL url)
         else
           (let asset_name =
                  (if parsed ! (length parsed - 2) \<in> set [''zipball'', ''tarball'']
                   then parsed ! (length parsed - 3) @ ''-'' @ parsed ! (length parsed - 2)
                   else parsed ! (length parsed - 1))
            in Inr (url_hash @ ''-'' @ asset_name)))"

definition checksum_file_path :: "string \<Rightarrow> error + string" where
  "checksum_file_path url =
     (case cache_file_path url of
        Inl e \<Rightarrow> Inl e
      | Inr path \<Rightarrow> Inr (path @ ''.sha256''))"

definition store_checksum_in_cache :: "string \<Rightarrow> string \<Rightarrow> world \<Rightarrow> (error + unit) \<times> world" where
  "store_checksum_in_cache url checksum w =
     (case checksum_file_path url of
        Inl e \<Rightarrow> (Inl e, w)
      | Inr p \<Rightarrow> (Inr (), w\<lparr>cache := (cache w)(p \<mapsto> checksum)\<rparr>))"

definition get_cached_url :: "string \<Rightarrow> world \<Rightarrow> error + string option" where
  "get_cached_url url w =
     (case cache_file_path url of
        Inl e \<Rightarrow> Inl e
      | Inr file_path \<Rightarrow> Inr (if cache w file_path \<noteq> None then Some file_path else None))"

text \<open>
  \<^verbatim>\<open>download_to_cache(url)\<close>. A cached blob is returned at once. Otherwise the
  request is made; \<^verbatim>\<open>raise_for_status\<close> raises for a status from 400 to 599; the
  blob file is opened for writing (created empty) and the body is copied into it as it
  arrives, so a stream that breaks leaves what was written; then the blob is hashed and
  the digest stored in the sidecar file.
\<close>

definition http_error_status :: "nat \<Rightarrow> bool" where
  "http_error_status status \<longleftrightarrow> 400 \<le> status \<and> status < 600"

text \<open>A response whose body stream breaks after the status check has passed.\<close>

definition stream_breaks :: "response \<Rightarrow> bool" where
  "stream_breaks r =
     (case r of
        ConnectionFailed \<Rightarrow> False
      | Response status body broken \<Rightarrow> broken \<noteq> None \<and> \<not> http_error_status status)"

definition download_to_cache ::
  "(string \<Rightarrow> response) \<Rightarrow> string \<Rightarrow> world \<Rightarrow> (error + string) \<times> world" where
  "download_to_cache net url w =
     (case get_cached_url url w of
        Inl e \<Rightarrow> (Inl e, w)
      | Inr (Some cached) \<Rightarrow> (Inr cached, w)
      | Inr None \<Rightarrow>
          (let w1 = w\<lparr>events := events w @ [HttpGet url]\<rparr>
           in case net url of
                ConnectionFailed \<Rightarrow> (Inl TransportError, w1)
              | Response status body broken \<Rightarrow>
                  if http_error_status status then (Inl (HTTPError status), w1)
                  else
                    (case cache_file_path url of
                       Inl e \<Rightarrow> (Inl e, w1)
                     | Inr cached \<Rightarrow>
                         (case broken of
                            Some n \<Rightarrow>
                              (Inl TransportError,
                               w1\<lparr>cache := (cache w1)(cached \<mapsto> take n body)\<rparr>)
                          | None \<Rightarrow>
                              (let w2 = w1\<lparr>cache := (cache w1)(cached \<mapsto> body)\<rparr>;
                                   checksum = calc_checksum body;
                                   w3 = w2\<lparr>events := events w2 @ [CalcChecksum cached]\<rparr>
                               in case store_checksum_in_cache url checksum w3 of
                                    (Inl e, w4) \<Rightarrow> (Inl e, w4)
                                  | (Inr u, w4) \<Rightarrow> (Inr cached, w4))))))"

text \<open>
  \<^verbatim>\<open>hash_asset(url)\<close>: the sidecar's content when the sidecar exists; otherwise
  download, hash the blob and store the digest.
\<close>

definition hash_asset ::
  "(string \<Rightarrow> response) \<Rightarrow> string \<Rightarrow> world \<Rightarrow> (error + string) \<times> world" where
  "hash_asset net url w =
     (case checksum_file_path url of
        Inl e \<Rightarrow> (Inl e, w)
      | Inr checksum_file \<Rightarrow>
          (case cache w checksum_file of
             Some stored \<Rightarrow> (Inr stored, w)
           | None \<Rightarrow>
               (case download_to_cache net url w of
                  (Inl e, w1) \<Rightarrow> (Inl e, w1)
                | (Inr cached_file, w1) \<Rightarrow>
                    (case cache w1 cached_file of
                       None \<Rightarrow> (Inl OSError, w1)
                     | Some blob \<Rightarrow>
                         (let checksum = calc_checksum blob;
                              w2 = w1\<lparr>events := events w1 @ [CalcChecksum cached_file]\<rparr>
                          in case store_checksum_in_cache url checksum w2 of
                               (Inl e, w3) \<Rightarrow> (Inl e, w3)
                             | (Inr u, w3) \<Rightarrow> (Inr checksum, w3))))))"

text \<open>
  \<^verbatim>\<open>download_to_cache_and_verify(url, expected_checksum)\<close>: download (or take the cached
  blob), hash the blob, and on a mismatch unlink the blob and the sidecar, both with
  \<^verbatim>\<open>missing_ok=True\<close>, and raise.
\<close>

definition download_to_cache_and_verify ::
  "(string \<Rightarrow> response) \<Rightarrow> string \<Rightarrow> string \<Rightarrow> world \<Rightarrow> (error + string) \<times> world" where
  "download_to_cache_and_verify net url expected_checksum w =
     (case download_to_cache net url w of
        (Inl e, w1) \<Rightarrow> (Inl e, w1)
      | (Inr cached_file, w1) \<Rightarrow>
          (case checksum_file_path url of
             Inl e \<Rightarrow> (Inl e, w1)
           | Inr checksum_file \<Rightarrow>
               (case cache w1 cached_file of
                  None \<Rightarrow> (Inl OSError, w1)
                | Some blob \<Rightarrow>
                    (let computed_checksum = calc_checksum blob;
                         w2 = w1\<lparr>events := events w1 @ [CalcChecksum cached_file]\<rparr>
                     in if computed_checksum \<noteq> expected_checksum
                        then (Inl (HashMismatch url computed_checksum expected_checksum),
                              w2\<lparr>cache := (cache w2)(cached_file := None, checksum_file := None)\<rparr>)
                        else (Inr cached_file, w2)))))"

subsection \<open>Properties of \<^verbatim>\<open>filter_files\<close>\<close>

lemma yield_matches_eq:
  "distinct ms \<Longrightarrow> set ms \<subseteq> files \<Longrightarrow>
     yield_matches ms files matched = (ms, files - set ms, matched \<or> ms \<noteq> [], None)"
proof (induction ms arbitrary: files matched)
  case Nil
  then show ?case by simp
next
  case (Cons m ms)
  from Cons.prems have "distinct ms" and "set ms \<subseteq> files - {m}" and "m \<in> files"
    by auto
  from Cons.IH [OF this(1,2), of True]
  have "yield_matches ms (files - {m}) True = (ms, files - {m} - set ms, True, None)"
    by simp
  moreover have "files - {m} - set ms = files - set (m # ms)"
    by auto
  ultimately show ?case
    using \<open>m \<in> files\<close> by simp
qed

lemma yield_matches_filter:
  assumes "set xs = files" and "distinct xs"
  shows "yield_matches (filter P xs) files matched =
           (filter P xs, {n \<in> files. \<not> P n}, matched \<or> filter P xs \<noteq> [], None)"
proof -
  have "files - set (filter P xs) = {n \<in> files. \<not> P n}"
    using assms(1) by auto
  moreover have "distinct (filter P xs)" and "set (filter P xs) \<subseteq> files"
    using assms by auto
  ultimately show ?thesis
    by (simp add: yield_matches_eq)
qed

lemma filter_globs_spec:
  assumes "\<And>S. S \<subseteq> U \<Longrightarrow> set (iter S) = S \<and> distinct (iter S)"
  shows "files \<subseteq> U \<Longrightarrow>
     filter_globs fnm iter files globs matched =
       (select_members_spec fnm iter files globs,
        matched \<or> select_members_spec fnm iter files globs \<noteq> [], None)"
proof (induction globs arbitrary: files matched)
  case Nil
  then show ?case by simp
next
  case (Cons glob globs)
  from assms [OF Cons.prems] have e: "set (iter files) = files" and d: "distinct (iter files)"
    by simp_all
  have "{n \<in> files. \<not> fnm n glob} \<subseteq> U"
    using Cons.prems by auto
  note ih = Cons.IH [OF this]
  show ?case
    by (simp add: yield_matches_filter [OF e d] ih disj_assoc)
qed

lemma select_members_spec_set:
  assumes "\<And>S. S \<subseteq> U \<Longrightarrow> set (iter S) = S \<and> distinct (iter S)"
  shows "files \<subseteq> U \<Longrightarrow>
     set (select_members_spec fnm iter files globs) = {n \<in> files. \<exists>g \<in> set globs. fnm n g}"
proof (induction globs arbitrary: files)
  case Nil
  then show ?case by simp
next
  case (Cons glob globs)
  from assms [OF Cons.prems] have e: "set (iter files) = files"
    by simp
  have "{n \<in> files. \<not> fnm n glob} \<subseteq> U"
    using Cons.prems by auto
  note ih = Cons.IH [OF this]
  show ?case
    by (auto simp: e ih)
qed

lemma select_members_spec_distinct:
  assumes "\<And>S. S \<subseteq> U \<Longrightarrow> set (iter S) = S \<and> distinct (iter S)"
  shows "files \<subseteq> U \<Longrightarrow> distinct (select_members_spec fnm iter files globs)"
proof (induction globs arbitrary: files)
  case Nil
  then show ?case by simp
next
  case (Cons glob globs)
  from assms [OF Cons.prems] have e: "set (iter files) = files" and d: "distinct (iter files)"
    by simp_all
  have s: "{n \<in> files. \<not> fnm n glob} \<subseteq> U"
    using Cons.prems by auto
  note ih = Cons.IH [OF s]
  show ?case
    using d by (auto simp: e ih select_members_spec_set [OF assms s])
qed

text \<open>
  The yielded names fall into one group per glob, in the order of the globs: the group of
  glob \<open>i\<close> holds, each once, exactly the members that glob \<open>i\<close> matches and no earlier
  glob does. Only the order inside a group depends on how the set is iterated.
\<close>

lemma select_members_spec_groups:
  assumes "\<And>S. S \<subseteq> U \<Longrightarrow> set (iter S) = S \<and> distinct (iter S)"
  shows "files \<subseteq> U \<Longrightarrow>
     \<exists>gs. length gs = length globs \<and> select_members_spec fnm iter files globs = concat gs
        \<and> (\<forall>i < length globs. distinct (gs ! i)
              \<and> set (gs ! i) = {n \<in> files. fnm n (globs ! i) \<and> (\<forall>j < i. \<not> fnm n (globs ! j))})"
proof (induction globs arbitrary: files)
  case Nil
  then show ?case by simp
next
  case (Cons glob globs)
  from assms [OF Cons.prems] have e: "set (iter files) = files" and d: "distinct (iter files)"
    by simp_all
  let ?rest = "{n \<in> files. \<not> fnm n glob}"
  have "?rest \<subseteq> U"
    using Cons.prems by auto
  from Cons.IH [OF this] obtain gs where
    len: "length gs = length globs" and
    cat: "select_members_spec fnm iter ?rest globs = concat gs" and
    grp: "\<forall>i < length globs. distinct (gs ! i)
            \<and> set (gs ! i) = {n \<in> ?rest. fnm n (globs ! i) \<and> (\<forall>j < i. \<not> fnm n (globs ! j))}"
    by blast
  let ?g = "filter (\<lambda>n. fnm n glob) (iter files)"
  have "\<forall>i < length (glob # globs). distinct ((?g # gs) ! i)
          \<and> set ((?g # gs) ! i) =
              {n \<in> files. fnm n ((glob # globs) ! i) \<and> (\<forall>j < i. \<not> fnm n ((glob # globs) ! j))}"
  proof (intro allI impI)
    fix i assume i: "i < length (glob # globs)"
    show "distinct ((?g # gs) ! i)
          \<and> set ((?g # gs) ! i) =
              {n \<in> files. fnm n ((glob # globs) ! i) \<and> (\<forall>j < i. \<not> fnm n ((glob # globs) ! j))}"
    proof (cases i)
      case 0
      with d e show ?thesis by auto
    next
      case (Suc k)
      with i have "k < length globs" by simp
      with grp have "distinct (gs ! k)"
        and "set (gs ! k) = {n \<in> ?rest. fnm n (globs ! k) \<and> (\<forall>j < k. \<not> fnm n (globs ! j))}"
        by simp_all
      with Suc show ?thesis
        by (auto simp: All_less_Suc2)
    qed
  qed
  with len cat show ?case
    by (intro exI [of _ "?g # gs"]) simp
qed

text \<open>
  Claim C3. Whatever the order in which the set of member names is iterated, for every
  collection of member names and every ordered list of globs: \<^verbatim>\<open>filter_files\<close>
  yields what the globs claim in their declared order, each glob taking, from the members
  earlier globs left, those it matches; so the yielded names fall into one group per glob,
  in glob order, the group of a glob holding exactly the members it matches and no earlier
  glob does. No name is yielded twice, every yielded name is a member matched by some
  glob, no removal fails, and the generator ends with the no-match error if and only if it
  yielded nothing.
\<close>

theorem filter_files_once_and_raises_iff_empty:
  assumes "\<And>S. S \<subseteq> set files \<Longrightarrow> set (iter S) = S \<and> distinct (iter S)"
  shows "fst (filter_files fnm iter files globs) = select_members_spec fnm iter (set files) globs
   \<and> (\<exists>gs. length gs = length globs \<and> fst (filter_files fnm iter files globs) = concat gs
         \<and> (\<forall>i < length globs. distinct (gs ! i)
               \<and> set (gs ! i) =
                   {n \<in> set files. fnm n (globs ! i) \<and> (\<forall>j < i. \<not> fnm n (globs ! j))}))
   \<and> distinct (fst (filter_files fnm iter files globs))
   \<and> set (fst (filter_files fnm iter files globs)) = {n \<in> set files. \<exists>g \<in> set globs. fnm n g}
   \<and> (snd (filter_files fnm iter files globs) = Some GlobsNoMatch
        \<longleftrightarrow> fst (filter_files fnm iter files globs) = [])
   \<and> (snd (filter_files fnm iter files globs) \<noteq> Some GlobsNoMatch
        \<longleftrightarrow> snd (filter_files fnm iter files globs) = None)"
proof -
  have s: "set files \<subseteq> set files" by simp
  have e: "filter_files fnm iter files globs =
             (select_members_spec fnm iter (set files) globs,
              if select_members_spec fnm iter (set files) globs = []
              then Some GlobsNoMatch else None)"
    by (simp add: filter_files_def filter_globs_spec [OF assms s])
  have "fst (filter_files fnm iter files globs) = select_members_spec fnm iter (set files) globs"
    by (simp add: e)
  moreover have "\<exists>gs. length gs = length globs \<and> fst (filter_files fnm iter files globs) = concat gs
         \<and> (\<forall>i < length globs. distinct (gs ! i)
               \<and> set (gs ! i) =
                   {n \<in> set files. fnm n (globs ! i) \<and> (\<forall>j < i. \<not> fnm n (globs ! j))})"
    using select_members_spec_groups [OF assms s, where fnm = fnm and globs = globs] by (simp add: e)
  moreover have "distinct (fst (filter_files fnm iter files globs))"
    using select_members_spec_distinct [OF assms s, where fnm = fnm and globs = globs] by (simp add: e)
  moreover have "set (fst (filter_files fnm iter files globs))
                   = {n \<in> set files. \<exists>g \<in> set globs. fnm n g}"
    by (simp add: e select_members_spec_set [OF assms s])
  moreover have "snd (filter_files fnm iter files globs) = Some GlobsNoMatch
        \<longleftrightarrow> fst (filter_files fnm iter files globs) = []"
    by (simp add: e)
  moreover have "snd (filter_files fnm iter files globs) \<noteq> Some GlobsNoMatch
        \<longleftrightarrow> snd (filter_files fnm iter files globs) = None"
    by (simp add: e)
  ultimately show ?thesis
    by blast
qed

theorem filter_files_once_and_raises_iff_empty_witness:
  "fst (filter_files (\<lambda>n g. g = ''*'' \<or> n = g) (\<lambda>S. filter (\<lambda>x. x \<in> S) [''c'', ''a'', ''b''])
          [''a'', ''b'', ''c'', ''a''] [''b'', ''*''])
     = [''b'', ''c'', ''a'']
   \<and> snd (filter_files (\<lambda>n g. g = ''*'' \<or> n = g) (\<lambda>S. filter (\<lambda>x. x \<in> S) [''c'', ''a'', ''b''])
          [''a'', ''b'', ''c'', ''a''] [''b'', ''*'']) = None
   \<and> snd (filter_files (\<lambda>n g. g = ''*'' \<or> n = g) (\<lambda>S. filter (\<lambda>x. x \<in> S) [''c'', ''a'', ''b''])
          [''a'', ''b''] [''d'']) = Some GlobsNoMatch"
proof -
  let ?f = "\<lambda>n g :: string. g = ''*'' \<or> n = g"
  let ?it = "\<lambda>S :: string set. filter (\<lambda>x. x \<in> S) [''c'', ''a'', ''b'']"
  have h1: "S \<subseteq> set [''a'', ''b'', ''c'', ''a''] \<Longrightarrow> set (?it S) = S \<and> distinct (?it S)" for S
    by auto
  have h2: "S \<subseteq> set [''a'', ''b''] \<Longrightarrow> set (?it S) = S \<and> distinct (?it S)" for S
    by auto
  note t1 = filter_files_once_and_raises_iff_empty
    [where files = "[''a'', ''b'', ''c'', ''a'']" and iter = ?it and fnm = ?f
       and globs = "[''b'', ''*'']", OF h1]
  note t2 = filter_files_once_and_raises_iff_empty
    [where files = "[''a'', ''b'']" and iter = ?it and fnm = ?f and globs = "[''d'']", OF h2]
  have s1: "select_members_spec ?f ?it (set [''a'', ''b'', ''c'', ''a'']) [''b'', ''*'']
              = [''b'', ''c'', ''a'']"
    by simp
  have s2: "select_members_spec ?f ?it (set [''a'', ''b'']) [''d''] = []"
    by simp
  have a: "fst (filter_files ?f ?it [''a'', ''b'', ''c'', ''a''] [''b'', ''*'']) = [''b'', ''c'', ''a'']"
    using t1 [THEN conjunct1] s1 by (rule trans)
  have b: "snd (filter_files ?f ?it [''a'', ''b'', ''c'', ''a''] [''b'', ''*'']) = None"
  proof -
    have "fst (filter_files ?f ?it [''a'', ''b'', ''c'', ''a''] [''b'', ''*'']) \<noteq> []"
      unfolding a by simp
    with t1 [THEN conjunct2, THEN conjunct2, THEN conjunct2, THEN conjunct2] show ?thesis
      by blast
  qed
  have c: "fst (filter_files ?f ?it [''a'', ''b''] [''d'']) = []"
    using t2 [THEN conjunct1] s2 by (rule trans)
  have d: "snd (filter_files ?f ?it [''a'', ''b''] [''d'']) = Some GlobsNoMatch"
    using t2 [THEN conjunct2, THEN conjunct2, THEN conjunct2, THEN conjunct2] c by blast
  from a b d show ?thesis by blast
qed

subsection \<open>Properties of the content cache\<close>

lemma concat_read_chunks: "0 < n \<Longrightarrow> concat (read_chunks n s) = s"
proof (induction n s rule: read_chunks.induct)
  case (1 n s)
  show ?case
  proof (cases "s = []")
    case True
    then show ?thesis by (simp add: read_chunks.simps)
  next
    case False
    with "1.prems" have "concat (read_chunks n (drop n s)) = drop n s"
      by (intro "1.IH") auto
    with False "1.prems" show ?thesis
      by (subst read_chunks.simps) simp
  qed
qed

lemma calc_checksum_eq: "calc_checksum s = sha256_hexdigest s"
  by (simp add: calc_checksum_def concat_read_chunks)

lemma sidecar_neq_blob: "p @ ''.sha256'' \<noteq> p"
  by simp

lemma checksum_file_path_Inr:
  "cache_file_path url = Inr p \<Longrightarrow> checksum_file_path url = Inr (p @ ''.sha256'')"
  by (simp add: checksum_file_path_def)

text \<open>The four ways \<^verbatim>\<open>download_to_cache\<close> ends for a well-formed URL.\<close>

lemma download_to_cache_malformed:
  "cache_file_path url = Inl e \<Longrightarrow> download_to_cache net url w = (Inl e, w)"
  by (simp add: download_to_cache_def get_cached_url_def)

lemma download_to_cache_hit:
  "cache_file_path url = Inr p \<Longrightarrow> cache w p = Some b \<Longrightarrow>
     download_to_cache net url w = (Inr p, w)"
  by (simp add: download_to_cache_def get_cached_url_def)

lemma download_to_cache_no_connection:
  "cache_file_path url = Inr p \<Longrightarrow> cache w p = None \<Longrightarrow> net url = ConnectionFailed \<Longrightarrow>
     download_to_cache net url w = (Inl TransportError, w\<lparr>events := events w @ [HttpGet url]\<rparr>)"
  by (simp add: download_to_cache_def get_cached_url_def)

lemma download_to_cache_bad_status:
  "cache_file_path url = Inr p \<Longrightarrow> cache w p = None \<Longrightarrow> net url = Response st body br \<Longrightarrow>
     http_error_status st \<Longrightarrow>
     download_to_cache net url w = (Inl (HTTPError st), w\<lparr>events := events w @ [HttpGet url]\<rparr>)"
  by (simp add: download_to_cache_def get_cached_url_def)

lemma download_to_cache_broken:
  "cache_file_path url = Inr p \<Longrightarrow> cache w p = None \<Longrightarrow>
     net url = Response st body (Some n) \<Longrightarrow> \<not> http_error_status st \<Longrightarrow>
     download_to_cache net url w =
       (Inl TransportError,
        w\<lparr>events := events w @ [HttpGet url], cache := (cache w)(p \<mapsto> take n body)\<rparr>)"
  by (simp add: download_to_cache_def get_cached_url_def)

lemma download_to_cache_fresh:
  "cache_file_path url = Inr p \<Longrightarrow> cache w p = None \<Longrightarrow>
     net url = Response st body None \<Longrightarrow> \<not> http_error_status st \<Longrightarrow>
     download_to_cache net url w =
       (Inr p,
        w\<lparr>events := events w @ [HttpGet url, CalcChecksum p],
          cache := (cache w)(p \<mapsto> body, p @ ''.sha256'' \<mapsto> sha256_hexdigest body)\<rparr>)"
  by (simp add: download_to_cache_def get_cached_url_def store_checksum_in_cache_def
      checksum_file_path_def calc_checksum_eq)

text \<open>A returned path is the URL's cache path, and the blob is there.\<close>

lemma download_to_cache_Inr:
  assumes "download_to_cache net url w = (Inr p, w1)"
  shows "cache_file_path url = Inr p \<and> (\<exists>blob. cache w1 p = Some blob)
         \<and> (cache w p \<noteq> None \<longrightarrow> w1 = w)
         \<and> (cache w p = None \<longrightarrow>
              events w1 = events w @ [HttpGet url, CalcChecksum p]
              \<and> (\<exists>st. net url = Response st (the (cache w1 p)) None))"
proof (cases "cache_file_path url")
  case (Inl e)
  with assms show ?thesis by (simp add: download_to_cache_malformed)
next
  case (Inr q)
  show ?thesis
  proof (cases "cache w q")
    case (Some b)
    with Inr assms show ?thesis by (auto simp: download_to_cache_hit)
  next
    case None
    show ?thesis
    proof (cases "net url")
      case ConnectionFailed
      with Inr None assms show ?thesis by (simp add: download_to_cache_no_connection)
    next
      case (Response st body br)
      show ?thesis
      proof (cases "http_error_status st")
        case True
        with Inr None Response assms show ?thesis
          by (simp add: download_to_cache_bad_status)
      next
        case False
        show ?thesis
        proof (cases br)
          case (Some n)
          with Inr None Response False assms show ?thesis
            by (simp add: download_to_cache_broken)
        next
          case br: None
          from Inr None Response br False assms
          have "p = q"
            and "w1 = w\<lparr>events := events w @ [HttpGet url, CalcChecksum q],
                       cache := (cache w)(q \<mapsto> body, q @ ''.sha256'' \<mapsto> sha256_hexdigest body)\<rparr>"
            by (auto simp: download_to_cache_fresh)
          with Inr None Response br show ?thesis by simp
        qed
      qed
    qed
  qed
qed

lemma download_to_cache_Inl:
  assumes "download_to_cache net url w = (Inl e, w1)"
  shows "e = MalformedURL url \<or> e = TransportError \<or> (\<exists>st. e = HTTPError st)"
proof (cases "cache_file_path url")
  case (Inl e')
  then have "e' = MalformedURL url"
    by (auto simp: cache_file_path_def Let_def split: if_splits)
  with Inl assms show ?thesis by (simp add: download_to_cache_malformed)
next
  case (Inr q)
  show ?thesis
  proof (cases "cache w q")
    case (Some b)
    with Inr assms show ?thesis by (simp add: download_to_cache_hit)
  next
    case None
    show ?thesis
    proof (cases "net url")
      case ConnectionFailed
      with Inr None assms show ?thesis by (simp add: download_to_cache_no_connection)
    next
      case (Response st body br)
      show ?thesis
      proof (cases "http_error_status st")
        case True
        with Inr None Response assms show ?thesis
          by (auto simp: download_to_cache_bad_status)
      next
        case False
        show ?thesis
        proof (cases br)
          case (Some n)
          with Inr None Response False assms show ?thesis
            by (auto simp: download_to_cache_broken)
        next
          case br: None
          with Inr None Response False assms show ?thesis
            by (auto simp: download_to_cache_fresh)
        qed
      qed
    qed
  qed
qed

lemma verify_after_download:
  assumes "download_to_cache net url w = (Inr p, w1)" and "cache w1 p = Some blob"
  shows "download_to_cache_and_verify net url expected w =
           (if sha256_hexdigest blob = expected
            then (Inr p, w1\<lparr>events := events w1 @ [CalcChecksum p]\<rparr>)
            else (Inl (HashMismatch url (sha256_hexdigest blob) expected),
                  w1\<lparr>events := events w1 @ [CalcChecksum p],
                     cache := (cache w1)(p := None, p @ ''.sha256'' := None)\<rparr>))"
proof -
  from download_to_cache_Inr [OF assms(1)] have "cache_file_path url = Inr p"
    by simp
  with assms show ?thesis
    by (simp add: download_to_cache_and_verify_def checksum_file_path_def calc_checksum_eq)
qed

lemma verify_after_failed_download:
  assumes "download_to_cache net url w = (Inl e, w1)"
  shows "download_to_cache_and_verify net url expected w = (Inl e, w1)"
  using assms by (simp add: download_to_cache_and_verify_def)

lemma sha256_hexdigest_length: "length (sha256_hexdigest m) = 64"
  by (simp add: sha256_hexdigest_def hexdigest_def hex32_def split: prod.split)

text \<open>
  Claim C1. Whenever the download step hands back a blob, freshly downloaded or already
  in the cache, \<^verbatim>\<open>download_to_cache_and_verify\<close> hashes that blob. If the digest
  differs from the expected one it fails with the hash-mismatch error carrying the URL,
  the computed digest and the expected digest, and the resulting cache holds neither the
  blob nor its sidecar; if the digests agree it returns the path and the cache is as the
  download left it. A blob that was already cached is verified without any request, and
  a failure with the hash-mismatch error always leaves no blob and no sidecar.
\<close>

theorem verify_hashes_blob_and_evicts_on_mismatch:
  "(download_to_cache net url w = (Inr p, w1) \<longrightarrow>
      (\<exists>blob. cache w1 p = Some blob \<and>
         download_to_cache_and_verify net url expected w =
           (if sha256_hexdigest blob = expected
            then (Inr p, w1\<lparr>events := events w1 @ [CalcChecksum p]\<rparr>)
            else (Inl (HashMismatch url (sha256_hexdigest blob) expected),
                  w1\<lparr>events := events w1 @ [CalcChecksum p],
                     cache := (cache w1)(p := None, p @ ''.sha256'' := None)\<rparr>))))
   \<and> (cache_file_path url = Inr p \<and> cache w p = Some tampered
          \<and> sha256_hexdigest tampered \<noteq> expected \<longrightarrow>
        download_to_cache_and_verify net url expected w =
          (Inl (HashMismatch url (sha256_hexdigest tampered) expected),
           w\<lparr>events := events w @ [CalcChecksum p],
              cache := (cache w)(p := None, p @ ''.sha256'' := None)\<rparr>))
   \<and> (fst (download_to_cache_and_verify net url expected w) = Inl (HashMismatch u c x)
          \<and> cache_file_path url = Inr p \<longrightarrow>
        u = url \<and> x = expected \<and> c \<noteq> expected
        \<and> cache (snd (download_to_cache_and_verify net url expected w)) p = None
        \<and> cache (snd (download_to_cache_and_verify net url expected w)) (p @ ''.sha256'') = None)"
proof -
  have first: "\<exists>blob. cache w1 p = Some blob \<and>
         download_to_cache_and_verify net url expected w =
           (if sha256_hexdigest blob = expected
            then (Inr p, w1\<lparr>events := events w1 @ [CalcChecksum p]\<rparr>)
            else (Inl (HashMismatch url (sha256_hexdigest blob) expected),
                  w1\<lparr>events := events w1 @ [CalcChecksum p],
                     cache := (cache w1)(p := None, p @ ''.sha256'' := None)\<rparr>))"
    if a: "download_to_cache net url w = (Inr p, w1)"
  proof -
    from download_to_cache_Inr [OF a] obtain blob where b: "cache w1 p = Some blob"
      by blast
    from verify_after_download [OF a b] b show ?thesis
      by blast
  qed
  have second: "download_to_cache_and_verify net url expected w =
          (Inl (HashMismatch url (sha256_hexdigest tampered) expected),
           w\<lparr>events := events w @ [CalcChecksum p],
              cache := (cache w)(p := None, p @ ''.sha256'' := None)\<rparr>)"
    if a: "cache_file_path url = Inr p \<and> cache w p = Some tampered
               \<and> sha256_hexdigest tampered \<noteq> expected"
  proof -
    from a have "download_to_cache net url w = (Inr p, w)"
      by (simp add: download_to_cache_hit)
    from verify_after_download [OF this, of tampered expected] a show ?thesis
      by simp
  qed
  have third: "u = url \<and> x = expected \<and> c \<noteq> expected
        \<and> cache (snd (download_to_cache_and_verify net url expected w)) p = None
        \<and> cache (snd (download_to_cache_and_verify net url expected w)) (p @ ''.sha256'') = None"
    if a: "fst (download_to_cache_and_verify net url expected w) = Inl (HashMismatch u c x)
               \<and> cache_file_path url = Inr p"
  proof -
    obtain r w1 where d: "download_to_cache net url w = (r, w1)"
      by (cases "download_to_cache net url w")
    show ?thesis
    proof (cases r)
      case (Inl e)
      with d have "download_to_cache_and_verify net url expected w = (Inl e, w1)"
        by (simp add: verify_after_failed_download)
      moreover from d Inl
      have "e = MalformedURL url \<or> e = TransportError \<or> (\<exists>st. e = HTTPError st)"
        by (simp add: download_to_cache_Inl)
      ultimately show ?thesis using a by auto
    next
      case (Inr q)
      with d have dq: "download_to_cache net url w = (Inr q, w1)" by simp
      from download_to_cache_Inr [OF dq] a obtain blob
        where q: "q = p" and b: "cache w1 p = Some blob"
        by auto
      from verify_after_download [OF dq [unfolded q] b, of expected] a
      show ?thesis
        by (auto split: if_splits)
    qed
  qed
  from first second third show ?thesis
    by blast
qed

theorem verify_hashes_blob_and_evicts_on_mismatch_witness:
  "download_to_cache_and_verify (\<lambda>u. ConnectionFailed) ''https://h/o/r/a.bin'' ''''
     (empty_world\<lparr>cache :=
        [sha256_hexdigest ''https://h/o/r/a.bin'' @ ''-a.bin'' \<mapsto> ''tampered'',
         sha256_hexdigest ''https://h/o/r/a.bin'' @ ''-a.bin.sha256'' \<mapsto> ''0123'']\<rparr>)
   = (Inl (HashMismatch ''https://h/o/r/a.bin'' (sha256_hexdigest ''tampered'') ''''),
      empty_world\<lparr>events := [CalcChecksum (sha256_hexdigest ''https://h/o/r/a.bin'' @ ''-a.bin'')]\<rparr>)"
proof -
  let ?url = "''https://h/o/r/a.bin''"
  let ?p = "sha256_hexdigest ?url @ ''-a.bin''"
  let ?w = "empty_world\<lparr>cache := [?p \<mapsto> ''tampered'', ?p @ ''.sha256'' \<mapsto> ''0123'']\<rparr>"
  have p: "cache_file_path ?url = Inr ?p"
    by (simp add: cache_file_path_def)
  have c: "cache ?w ?p = Some ''tampered''"
    by simp
  have n: "sha256_hexdigest ''tampered'' \<noteq> ''''"
    using sha256_hexdigest_length [of "''tampered''"] by auto
  note t = verify_hashes_blob_and_evicts_on_mismatch
    [where url = ?url and p = ?p and w = ?w and tampered = "''tampered''" and expected = "''''"
       and net = "\<lambda>u. ConnectionFailed"]
  from t [THEN conjunct2, THEN conjunct1] p c n
  have "download_to_cache_and_verify (\<lambda>u. ConnectionFailed) ?url '''' ?w =
          (Inl (HashMismatch ?url (sha256_hexdigest ''tampered'') ''''),
           ?w\<lparr>events := events ?w @ [CalcChecksum ?p],
               cache := (cache ?w)(?p := None, ?p @ ''.sha256'' := None)\<rparr>)"
    by blast
  moreover have "?w\<lparr>events := events ?w @ [CalcChecksum ?p],
               cache := (cache ?w)(?p := None, ?p @ ''.sha256'' := None)\<rparr>
         = empty_world\<lparr>events := [CalcChecksum ?p]\<rparr>"
    by (simp add: empty_world_def fun_eq_iff)
  ultimately show ?thesis by simp
qed

text \<open>
  Claim C5. If the blob is already at the cache path, \<^verbatim>\<open>download_to_cache\<close> returns
  that path and leaves the whole state as it was: no request, no hashing, no write. So
  when a first call returns, a second call on the same URL, whatever the network would
  answer, returns the same path and changes nothing; the blob is the same, and the two
  calls together made exactly the requests of the first: one when the blob was not cached
  before, none when it was.
\<close>

theorem download_to_cache_twice_is_once:
  "(cache_file_path url = Inr p \<and> cache w p = Some blob \<longrightarrow>
      download_to_cache net url w = (Inr p, w))
   \<and> (download_to_cache net url w = (Inr p, w1) \<longrightarrow>
        download_to_cache net' url w1 = (Inr p, w1)
        \<and> (\<exists>b. cache w1 p = Some b)
        \<and> events w1 = events w @ (if cache w p = None then [HttpGet url, CalcChecksum p] else []))"
proof -
  have second: "download_to_cache net' url w1 = (Inr p, w1)
        \<and> (\<exists>b. cache w1 p = Some b)
        \<and> events w1 = events w @ (if cache w p = None then [HttpGet url, CalcChecksum p] else [])"
    if a: "download_to_cache net url w = (Inr p, w1)"
  proof -
    note i = download_to_cache_Inr [OF a]
    note p = i [THEN conjunct1]
    note ex = i [THEN conjunct2, THEN conjunct1]
    note same = i [THEN conjunct2, THEN conjunct2, THEN conjunct1]
    note fresh = i [THEN conjunct2, THEN conjunct2, THEN conjunct2]
    from ex obtain b where b: "cache w1 p = Some b" ..
    have hit: "download_to_cache net' url w1 = (Inr p, w1)"
      using p b by (rule download_to_cache_hit)
    have ev: "events w1 = events w @ (if cache w p = None then [HttpGet url, CalcChecksum p] else [])"
    proof (cases "cache w p")
      case None
      from fresh [THEN mp, OF None, THEN conjunct1] None show ?thesis
        by simp
    next
      case (Some x)
      then have "cache w p \<noteq> None" by simp
      from same [THEN mp, OF this] Some show ?thesis
        by simp
    qed
    from hit ex ev show ?thesis
      by (intro conjI)
  qed
  have first: "download_to_cache net url w = (Inr p, w)"
    if a: "cache_file_path url = Inr p \<and> cache w p = Some blob"
    using a [THEN conjunct1] a [THEN conjunct2] by (rule download_to_cache_hit)
  from first second show ?thesis
    by blast
qed

theorem download_to_cache_twice_is_once_witness:
  "download_to_cache (\<lambda>u. Response 200 ''data'' None) ''https://h/o/r/a.bin'' empty_world
     = (Inr (sha256_hexdigest ''https://h/o/r/a.bin'' @ ''-a.bin''),
        empty_world\<lparr>events := [HttpGet ''https://h/o/r/a.bin'',
                                CalcChecksum (sha256_hexdigest ''https://h/o/r/a.bin'' @ ''-a.bin'')],
          cache := [sha256_hexdigest ''https://h/o/r/a.bin'' @ ''-a.bin'' \<mapsto> ''data'',
                    (sha256_hexdigest ''https://h/o/r/a.bin'' @ ''-a.bin'') @ ''.sha256''
                      \<mapsto> sha256_hexdigest ''data'']\<rparr>)
   \<and> download_to_cache (\<lambda>u. ConnectionFailed) ''https://h/o/r/a.bin''
        (snd (download_to_cache (\<lambda>u. Response 200 ''data'' None) ''https://h/o/r/a.bin'' empty_world))
     = download_to_cache (\<lambda>u. Response 200 ''data'' None) ''https://h/o/r/a.bin'' empty_world"
proof -
  let ?url = "''https://h/o/r/a.bin''"
  let ?p = "sha256_hexdigest ?url @ ''-a.bin''"
  let ?net = "\<lambda>u :: string. Response 200 ''data'' None"
  let ?w1 = "empty_world\<lparr>events := [HttpGet ?url, CalcChecksum ?p],
               cache := [?p \<mapsto> ''data'', ?p @ ''.sha256'' \<mapsto> sha256_hexdigest ''data'']\<rparr>"
  have p: "cache_file_path ?url = Inr ?p"
    by (simp add: cache_file_path_def)
  have c: "cache empty_world ?p = None"
    by (simp add: empty_world_def)
  have n: "\<not> http_error_status 200"
    by (simp add: http_error_status_def)
  have w: "empty_world\<lparr>events := events empty_world @ [HttpGet ?url, CalcChecksum ?p],
             cache := (cache empty_world)(?p \<mapsto> ''data'',
                        ?p @ ''.sha256'' \<mapsto> sha256_hexdigest ''data'')\<rparr> = ?w1"
    by (simp add: empty_world_def)
  have first: "download_to_cache ?net ?url empty_world = (Inr ?p, ?w1)"
    unfolding w [symmetric]
    by (rule download_to_cache_fresh [where net = ?net and st = 200 and body = "''data''", OF p c _ n])
      simp
  note t = download_to_cache_twice_is_once
    [where url = ?url and p = ?p and w = empty_world and ?w1.0 = ?w1 and net = ?net
       and net' = "\<lambda>u. ConnectionFailed"]
  note second = t [THEN conjunct2, THEN mp, OF first, THEN conjunct1]
  show ?thesis
    unfolding first snd_conv by (intro conjI refl second)
qed

text \<open>
  Claim C4, as the code has it. A download that fails before the body is streamed (no
  connection, or a status from 400 to 599) leaves the cache exactly as it was, and when the
  body stream does not break, a blob found at the cache path after the call is the
  complete body of a response. The claim as written also covers a stream that breaks
  midway; there the bytes received so far stay at the cache path and the next call
  takes them for the cached blob, as the counterexample shows.
\<close>

theorem download_to_cache_failure_keeps_cache_unless_stream_breaks:
  assumes "cache_file_path url = Inr p" and "cache w p = None"
    and "\<not> stream_breaks (net url)"
    and "download_to_cache net url w = (res, w')"
  shows "(\<forall>e. res = Inl e \<longrightarrow> cache w' = cache w \<and> (e = TransportError \<or> (\<exists>st. e = HTTPError st)))
         \<and> (\<forall>b. cache w' p = Some b \<longrightarrow> res = Inr p \<and> (\<exists>st. net url = Response st b None))"
proof (cases "net url")
  case ConnectionFailed
  with assms(1,2) have "download_to_cache net url w =
      (Inl TransportError, w\<lparr>events := events w @ [HttpGet url]\<rparr>)"
    by (rule download_to_cache_no_connection)
  with assms(2,4) show ?thesis
    by auto
next
  case (Response st body br)
  show ?thesis
  proof (cases "http_error_status st")
    case True
    with assms(1,2) Response have "download_to_cache net url w =
        (Inl (HTTPError st), w\<lparr>events := events w @ [HttpGet url]\<rparr>)"
      by (simp add: download_to_cache_bad_status)
    with assms(2,4) show ?thesis
      by auto
  next
    case False
    with assms(3) Response have br: "br = None"
      by (simp add: stream_breaks_def)
    with assms(1,2) Response False have "download_to_cache net url w =
        (Inr p, w\<lparr>events := events w @ [HttpGet url, CalcChecksum p],
                 cache := (cache w)(p \<mapsto> body, p @ ''.sha256'' \<mapsto> sha256_hexdigest body)\<rparr>)"
      by (simp add: download_to_cache_fresh)
    with assms(4) Response br show ?thesis
      by auto
  qed
qed

theorem download_to_cache_failure_keeps_cache_unless_stream_breaks_witness:
  "fst (download_to_cache (\<lambda>u. Response 404 ''gone'' None) ''https://h/o/r/a.bin'' empty_world)
     = Inl (HTTPError 404)
   \<and> cache (snd (download_to_cache (\<lambda>u. Response 404 ''gone'' None) ''https://h/o/r/a.bin'' empty_world))
     = cache empty_world"
proof -
  let ?url = "''https://h/o/r/a.bin''"
  let ?p = "sha256_hexdigest ?url @ ''-a.bin''"
  let ?net = "\<lambda>u :: string. Response 404 ''gone'' None"
  have p: "cache_file_path ?url = Inr ?p"
    by (simp add: cache_file_path_def)
  have c: "cache empty_world ?p = None"
    by (simp add: empty_world_def)
  have s: "\<not> stream_breaks (?net ?url)"
    by (simp add: stream_breaks_def)
  have r: "fst (download_to_cache ?net ?url empty_world) = Inl (HTTPError 404)"
    using p c by (simp add: download_to_cache_bad_status [where br = None] http_error_status_def)
  have d: "download_to_cache ?net ?url empty_world =
             (fst (download_to_cache ?net ?url empty_world),
              snd (download_to_cache ?net ?url empty_world))"
    by simp
  from download_to_cache_failure_keeps_cache_unless_stream_breaks [OF p c s d] r
  have "cache (snd (download_to_cache ?net ?url empty_world)) = cache empty_world"
    by blast
  with r show ?thesis
    by simp
qed

theorem download_to_cache_partial_blob_counterexample:
  "download_to_cache (\<lambda>u. Response 200 ''abcdef'' (Some 2)) ''https://h/o/r/a.bin'' empty_world
     = (Inl TransportError,
        empty_world\<lparr>events := [HttpGet ''https://h/o/r/a.bin''],
          cache := [sha256_hexdigest ''https://h/o/r/a.bin'' @ ''-a.bin'' \<mapsto> ''ab'']\<rparr>)
   \<and> download_to_cache (\<lambda>u. Response 200 ''abcdef'' None) ''https://h/o/r/a.bin''
        (empty_world\<lparr>events := [HttpGet ''https://h/o/r/a.bin''],
           cache := [sha256_hexdigest ''https://h/o/r/a.bin'' @ ''-a.bin'' \<mapsto> ''ab'']\<rparr>)
     = (Inr (sha256_hexdigest ''https://h/o/r/a.bin'' @ ''-a.bin''),
        empty_world\<lparr>events := [HttpGet ''https://h/o/r/a.bin''],
          cache := [sha256_hexdigest ''https://h/o/r/a.bin'' @ ''-a.bin'' \<mapsto> ''ab'']\<rparr>)
   \<and> ''ab'' \<noteq> ''abcdef''"
proof -
  let ?url = "''https://h/o/r/a.bin''"
  let ?p = "sha256_hexdigest ?url @ ''-a.bin''"
  let ?w1 = "empty_world\<lparr>events := [HttpGet ?url], cache := [?p \<mapsto> ''ab'']\<rparr>"
  have p: "cache_file_path ?url = Inr ?p"
    by (simp add: cache_file_path_def)
  have "download_to_cache (\<lambda>u. Response 200 ''abcdef'' (Some 2)) ?url empty_world
          = (Inl TransportError, ?w1)"
    using p by (simp add: download_to_cache_broken empty_world_def http_error_status_def)
  moreover have "download_to_cache (\<lambda>u. Response 200 ''abcdef'' None) ?url ?w1 = (Inr ?p, ?w1)"
    by (rule download_to_cache_hit [OF p]) simp
  ultimately show ?thesis
    by simp
qed


end
